theory Spec2Isabelle
  imports Complex_Main
begin

section \<open>JavaScript strings\<close>

text \<open>
  Strings are \<open>char list\<close>. The model covers ASCII text: \<open>\s\<close>, \<open>\d\<close> and \<open>\w\<close> are the
  ASCII classes of a JavaScript regular expression without the \<open>u\<close> flag, and
  \<open>toLowerCase\<close> maps \<open>A\<close>..\<open>Z\<close> to \<open>a\<close>..\<open>z\<close>. Every other character is neither a word
  character nor white space, and is its own lower case.
\<close>

definition is_space :: "char \<Rightarrow> bool" where
  "is_space c = (c \<in> set [CHR 0x09, CHR 0x0A, CHR 0x0B, CHR 0x0C, CHR 0x0D, CHR 0x20])"

definition is_digit :: "char \<Rightarrow> bool" where
  "is_digit c = (c \<in> set ''0123456789'')"

definition is_alnum :: "char \<Rightarrow> bool" where
  "is_alnum c = (c \<in> set ''abcdefghijklmnopqrstuvwxyzABCDEFGHIJKLMNOPQRSTUVWXYZ0123456789'')"

text \<open>The class \<open>\w\<close>: letters, digits and the underscore.\<close>

definition is_word :: "char \<Rightarrow> bool" where
  "is_word c = (is_alnum c \<or> c = CHR ''_'')"

definition toLowerChar :: "char \<Rightarrow> char" where
  "toLowerChar c =
     (case map_of (zip ''ABCDEFGHIJKLMNOPQRSTUVWXYZ'' ''abcdefghijklmnopqrstuvwxyz'') c of
        None \<Rightarrow> c
      | Some d \<Rightarrow> d)"

definition toLowerCase :: "string \<Rightarrow> string" where
  "toLowerCase s = map toLowerChar s"

text \<open>\<open>String.prototype.trim\<close>: white space is removed at both ends.\<close>

definition trimEnd :: "string \<Rightarrow> string" where
  "trimEnd s = rev (dropWhile is_space (rev s))"

definition trim :: "string \<Rightarrow> string" where
  "trim s = trimEnd (dropWhile is_space s)"

fun startsWith :: "string \<Rightarrow> string \<Rightarrow> bool" where
  "startsWith s [] = True"
| "startsWith [] (c # t) = False"
| "startsWith (d # s) (c # t) = (d = c \<and> startsWith s t)"

text \<open>\<open>s.includes(t)\<close>: \<open>t\<close> occurs in \<open>s\<close> as a contiguous substring.\<close>

fun includes_str :: "string \<Rightarrow> string \<Rightarrow> bool" where
  "includes_str [] t = (t = [])"
| "includes_str (c # s) t = (startsWith (c # s) t \<or> includes_str s t)"




text \<open>
  The decimal rendering of a number inside a template literal. Only the digits of a
  natural number are written by recursion; the sign is put in front.
\<close>

fun digits_of :: "nat \<Rightarrow> nat \<Rightarrow> string" where
  "digits_of 0 n = []"
| "digits_of (Suc fuel) n =
     (if n < 10 then [char_of (48 + n)]
      else digits_of fuel (n div 10) @ [char_of (48 + n mod 10)])"

definition string_of_int :: "int \<Rightarrow> string" where
  "string_of_int i =
     (if i < 0 then CHR ''-'' # digits_of (Suc (nat (- i))) (nat (- i))
      else digits_of (Suc (nat i)) (nat i))"

section \<open>The title normalizer (\<open>cleanTitle\<close>)\<close>

text \<open>
  \<open>cleanTitle\<close> is a chain of five \<open>replace\<close> calls and a \<open>trim\<close>. The first three
  patterns are anchored at the end of the string and have no \<open>g\<close> flag: the leftmost
  match is replaced, and it starts at the white space in front of the opening
  character. They are modelled on the reversed string.

  \<open>strip_year_suffix l r\<close> is \<open>replace(/\s*L\d{4}R\s*$/, '')\<close>, with \<open>L\<close>, \<open>R\<close> the
  parentheses or the square brackets.
\<close>

definition strip_year_suffix :: "char \<Rightarrow> char \<Rightarrow> string \<Rightarrow> string" where
  "strip_year_suffix l r s =
     (case dropWhile is_space (rev s) of
        c # d4 # d3 # d2 # d1 # opn # rest \<Rightarrow>
          if c = r \<and> is_digit d4 \<and> is_digit d3 \<and> is_digit d2 \<and> is_digit d1 \<and> opn = l
          then rev (dropWhile is_space rest) else s
      | _ \<Rightarrow> s)"

text \<open>\<open>replace(/\s*-\s*\d{4}\s*$/, '')\<close>\<close>

definition strip_dash_year :: "string \<Rightarrow> string" where
  "strip_dash_year s =
     (case dropWhile is_space (rev s) of
        d4 # d3 # d2 # d1 # rest \<Rightarrow>
          if is_digit d4 \<and> is_digit d3 \<and> is_digit d2 \<and> is_digit d1
          then (case dropWhile is_space rest of
                  m # rest' \<Rightarrow> if m = CHR ''-'' then rev (dropWhile is_space rest') else s
                | [] \<Rightarrow> s)
          else s
      | _ \<Rightarrow> s)"

text \<open>\<open>replace(/[^\w\s]/g, ' ')\<close>\<close>

definition replace_special :: "string \<Rightarrow> string" where
  "replace_special s = map (\<lambda>c. if is_word c \<or> is_space c then c else CHR '' '') s"

text \<open>\<open>replace(/\s+/g, ' ')\<close>: every maximal run of white space becomes one space.\<close>

function normalize_spaces :: "string \<Rightarrow> string" where
  "normalize_spaces [] = []"
| "normalize_spaces (c # cs) =
     (if is_space c then CHR '' '' # normalize_spaces (dropWhile is_space cs)
      else c # normalize_spaces cs)"
  by pat_completeness auto
termination
  by (relation "measure length") (auto simp: less_Suc_eq_le length_dropWhile_le)

definition cleanTitle :: "string \<Rightarrow> string" where
  "cleanTitle title =
     trim (normalize_spaces (replace_special (strip_dash_year
       (strip_year_suffix CHR ''['' CHR '']'' (strip_year_suffix CHR ''('' CHR '')'' title)))))"

section \<open>Runtime parsing (\<open>parseRuntime\<close> of the archive service)\<close>




section \<open>The metadata service (\<open>TMDBService\<close>)\<close>

subsection \<open>Data\<close>

text \<open>A candidate of the ranked result list of the search endpoint.\<close>

record tmdb_movie =
  tm_id :: int
  tm_title :: string
  poster_path :: "string option"
  backdrop_path :: "string option"
  release_date :: "string option"
  tm_overview :: "string option"
  vote_average :: rat
  genre_ids :: "int list"

text \<open>The record \<open>_fetchFromTMDB\<close> builds from the best match and stores in the cache.\<close>

record tmdb_match =
  match_id :: int
  match_title :: string
  posterPath :: "string option"
  backdropPath :: "string option"
  releaseDate :: "string option"
  overview :: "string option"
  voteAverage :: rat
  genreIds :: "int list"

text \<open>A cache entry \<open>{ data, timestamp }\<close>; \<open>data = None\<close> is JavaScript's \<open>null\<close>.\<close>

record cache_entry =
  data :: "tmdb_match option"
  timestamp :: int

type_synonym cache = "string \<rightharpoonup> cache_entry"

text \<open>
  What \<open>fetch\<close> and \<open>response.json()\<close> deliver: the request is rejected (a thrown network
  failure), or a response arrives with a status and a body that either fails to parse or
  is an object whose \<open>results\<close> field is absent or a list of candidates.
\<close>

datatype body = Invalid | Data "tmdb_movie list option"

datatype fetch_outcome = Rejected | Response nat body

definition ok :: "nat \<Rightarrow> bool" where
  "ok status = (200 \<le> status \<and> status \<le> 299)"

text \<open>Truthiness of a value that is \<open>null\<close> or a string.\<close>

definition truthy_str :: "string option \<Rightarrow> bool" where
  "truthy_str v = (case v of None \<Rightarrow> False | Some s \<Rightarrow> s \<noteq> [])"

definition CACHE_DURATION :: int where
  "CACHE_DURATION = 1000 * 60 * 60 * 24 * 7"

definition MIN_REQUEST_INTERVAL :: int where
  "MIN_REQUEST_INTERVAL = 100"

subsection \<open>Cache key and cache access\<close>

text \<open>
  The year is \<open>null\<close> (\<open>None\<close>, which also stands for \<open>NaN\<close>) or an integer; \<open>null\<close>,
  \<open>NaN\<close> and \<open>0\<close> are falsy, and \<open>year || 'unknown'\<close> is then \<open>unknown\<close>.
\<close>

definition getCacheKey :: "string \<Rightarrow> int option \<Rightarrow> string" where
  "getCacheKey t y =
     trim (toLowerCase t) @ ''-'' @
       (case y of None \<Rightarrow> ''unknown''
        | Some n \<Rightarrow> if n = 0 then ''unknown'' else string_of_int n)"

text \<open>\<open>getFromCache\<close> returns the pair \<open>(found, data)\<close>.\<close>

definition getFromCache :: "cache \<Rightarrow> string \<Rightarrow> int option \<Rightarrow> int \<Rightarrow> bool \<times> tmdb_match option" where
  "getFromCache c t y now =
     (case c (getCacheKey t y) of
        None \<Rightarrow> (False, None)
      | Some cached \<Rightarrow>
          if now - timestamp cached < CACHE_DURATION then (True, data cached)
          else (False, None))"

definition setCache :: "cache \<Rightarrow> string \<Rightarrow> int option \<Rightarrow> tmdb_match option \<Rightarrow> int \<Rightarrow> cache" where
  "setCache c t y d now = c(getCacheKey t y \<mapsto> \<lparr>data = d, timestamp = now\<rparr>)"

text \<open>
  \<open>hasCachedPoster\<close>: \<open>Some True\<close> and \<open>Some False\<close> are the booleans, \<open>None\<close> is the
  \<open>null\<close> returned for "not checked yet". No expiry is checked here.
\<close>

definition hasCachedPoster :: "cache \<Rightarrow> string \<Rightarrow> int option \<Rightarrow> bool option" where
  "hasCachedPoster c t y =
     (case c (getCacheKey t y) of
        None \<Rightarrow> None
      | Some cached \<Rightarrow>
          (case data cached of
             None \<Rightarrow> Some False
           | Some d \<Rightarrow> if truthy_str (posterPath d) then Some True else None))"

subsection \<open>Best match\<close>

text \<open>The predicate given to \<open>data.results.find\<close>.\<close>

definition title_matches :: "string \<Rightarrow> tmdb_movie \<Rightarrow> bool" where
  "title_matches cleanedTitle movie =
     (let movieTitle = toLowerCase (tm_title movie);
          searchTitle = toLowerCase cleanedTitle
      in movieTitle = searchTitle \<or> includes_str movieTitle searchTitle
           \<or> includes_str searchTitle movieTitle)"

definition bestMatch :: "string \<Rightarrow> tmdb_movie list option \<Rightarrow> tmdb_movie option" where
  "bestMatch cleanedTitle results =
     (case results of
        None \<Rightarrow> None
      | Some [] \<Rightarrow> None
      | Some (r0 # rs) \<Rightarrow>
          (case find (title_matches cleanedTitle) (r0 # rs) of
             Some m \<Rightarrow> Some m
           | None \<Rightarrow> if truthy_str (poster_path r0) then Some r0 else None))"

definition to_match :: "tmdb_movie \<Rightarrow> tmdb_match" where
  "to_match m =
     \<lparr>match_id = tm_id m, match_title = tm_title m, posterPath = poster_path m,
      backdropPath = backdrop_path m, releaseDate = release_date m,
      overview = tm_overview m, voteAverage = vote_average m, genreIds = genre_ids m\<rparr>"

text \<open>
  The value \<open>_fetchFromTMDB\<close> stores and returns once the request has ended: \<open>null\<close> for a
  rejected request (the \<open>catch\<close> branch), for a response that is not \<open>ok\<close> and for a body
  that does not parse; otherwise the record of the best match, or \<open>null\<close> without one.
\<close>

definition fetch_result :: "string \<Rightarrow> fetch_outcome \<Rightarrow> tmdb_match option" where
  "fetch_result cleanedTitle outcome =
     (case outcome of
        Rejected \<Rightarrow> None
      | Response status b \<Rightarrow>
          if \<not> ok status then None
          else (case b of
                  Invalid \<Rightarrow> None
                | Data results \<Rightarrow> map_option to_match (bestMatch cleanedTitle results)))"

subsection \<open>State and asynchronous steps\<close>

text \<open>
  The module-level variables and the fields of the singleton service form the state.
  Time is the value of \<open>Date.now()\<close>, in milliseconds. An activation of
  \<open>_fetchFromTMDB\<close> that has not returned yet is a \<open>lookup\<close>, identified by the number of
  its promise; it is either suspended on the timer of \<open>throttledFetch\<close>, which is due at
  the given time, or waiting for the response to the request it has issued.
  \<open>issued\<close> lists the times at which \<open>fetch(url)\<close> was called, oldest first, and
  \<open>resolved\<close> the values the promises were resolved with.

  The cache a session starts with, loaded from local storage, is the parameter of
  \<open>init_state\<close>; saving it is not modelled, nor is \<open>getGenres\<close>, which no component calls
  and whose cache key \<open>genres\<close> is the key of no title. \<open>searchMovies\<close> is a sequence of
  \<open>searchMovie\<close> calls.
\<close>

datatype stage = Waiting int | Fetching

record lookup =
  l_title :: string
  l_year :: "int option"
  l_key :: string
  l_stage :: stage

record state =
  apiKey :: "string option"
  enabled :: bool
  tmdbCache :: cache
  pendingRequests :: "string \<rightharpoonup> nat"
  lastRequestTime :: int
  lookups :: "(nat \<times> lookup) list"
  nextId :: nat
  issued :: "int list"
  resolved :: "(nat \<times> tmdb_match option) list"

definition init_state :: "cache \<Rightarrow> state" where
  "init_state c =
     \<lparr>apiKey = None, enabled = False, tmdbCache = c, pendingRequests = Map.empty,
      lastRequestTime = 0, lookups = [], nextId = 0, issued = [], resolved = []\<rparr>"

definition setApiKey :: "string option \<Rightarrow> state \<Rightarrow> state" where
  "setApiKey k s = s\<lparr>apiKey := k, enabled := truthy_str k\<rparr>"

text \<open>
  \<open>throttledFetch\<close> up to its first suspension: either the caller is put on a timer of
  \<open>MIN_REQUEST_INTERVAL - timeSinceLastRequest\<close> milliseconds, or the request is issued
  at once.
\<close>

definition throttledFetch :: "int \<Rightarrow> state \<Rightarrow> stage \<times> state" where
  "throttledFetch now s =
     (let timeSinceLastRequest = now - lastRequestTime s in
      if timeSinceLastRequest < MIN_REQUEST_INTERVAL
      then (Waiting (now + (MIN_REQUEST_INTERVAL - timeSinceLastRequest)), s)
      else (Fetching, s\<lparr>lastRequestTime := now, issued := issued s @ [now]\<rparr>))"

text \<open>
  What the caller of \<open>searchMovie\<close> gets: a value at once (the function returned without
  waiting), or the promise of a lookup in flight.
\<close>

datatype answer = Resolved "tmdb_match option" | Pending nat

definition searchMovie :: "string \<Rightarrow> int option \<Rightarrow> int \<Rightarrow> state \<Rightarrow> answer \<times> state" where
  "searchMovie t y now s =
     (if \<not> enabled s then (Resolved None, s)
      else
        let cacheKey = getCacheKey t y;
            cached = getFromCache (tmdbCache s) t y now
        in if fst cached then (Resolved (snd cached), s)
           else (case pendingRequests s cacheKey of
                   Some p \<Rightarrow> (Pending p, s)
                 | None \<Rightarrow>
                     let (st, s1) = throttledFetch now s;
                         p = nextId s1
                     in (Pending p,
                         s1\<lparr>lookups := lookups s1 @
                               [(p, \<lparr>l_title = t, l_year = y, l_key = cacheKey, l_stage = st\<rparr>)],
                            pendingRequests := (pendingRequests s1)(cacheKey \<mapsto> p),
                            nextId := Suc p\<rparr>)))"

text \<open>
  The timer of a suspended lookup fires, no earlier than it is due: \<open>throttledFetch\<close>
  resumes, stamps \<open>lastRequestTime\<close> and issues the request.
\<close>

definition timer_fires :: "nat \<Rightarrow> int \<Rightarrow> state \<Rightarrow> state" where
  "timer_fires p now s =
     (case map_of (lookups s) p of
        Some l \<Rightarrow>
          (case l_stage l of
             Waiting due \<Rightarrow>
               if due \<le> now
               then s\<lparr>lastRequestTime := now, issued := issued s @ [now],
                      lookups := map (\<lambda>(q, l'). if q = p then (q, l'\<lparr>l_stage := Fetching\<rparr>)
                                                 else (q, l')) (lookups s)\<rparr>
               else s
           | Fetching \<Rightarrow> s)
      | None \<Rightarrow> s)"

text \<open>
  The request of a lookup ends. \<open>_fetchFromTMDB\<close> stores its value with \<open>setCache\<close> on
  every path and returns it; the promise is resolved with it, and the \<open>finally\<close> block of
  the \<open>searchMovie\<close> call that started the lookup deletes the pending entry of the key.
  That block runs in the microtasks that follow the resolution, before any other timer,
  response or user event is handled, so both are one step here.
\<close>

definition respond :: "nat \<Rightarrow> fetch_outcome \<Rightarrow> int \<Rightarrow> state \<Rightarrow> state" where
  "respond p outcome now s =
     (case map_of (lookups s) p of
        Some l \<Rightarrow>
          (case l_stage l of
             Fetching \<Rightarrow>
               let result = fetch_result (cleanTitle (l_title l)) outcome
               in s\<lparr>tmdbCache := setCache (tmdbCache s) (l_title l) (l_year l) result now,
                    lookups := filter (\<lambda>(q, l'). q \<noteq> p) (lookups s),
                    pendingRequests := (pendingRequests s)(l_key l := None),
                    resolved := resolved s @ [(p, result)]\<rparr>
           | Waiting due \<Rightarrow> s)
      | None \<Rightarrow> s)"

datatype event =
    SetApiKey "string option"
  | Search string "int option" int
  | TimerFires nat int
  | Respond nat fetch_outcome int

fun step :: "event \<Rightarrow> state \<Rightarrow> state" where
  "step (SetApiKey k) s = setApiKey k s"
| "step (Search t y now) s = snd (searchMovie t y now s)"
| "step (TimerFires p now) s = timer_fires p now s"
| "step (Respond p outcome now) s = respond p outcome now s"

definition run :: "event list \<Rightarrow> state \<Rightarrow> state" where
  "run evs s = foldl (\<lambda>s' e. step e s') s evs"

subsection \<open>Predicates on states, outcomes and events\<close>

text \<open>
  The pending map and the lookups in flight agree: every lookup is registered under its
  key, which is the cache key of its title and year; every pending entry is the promise
  of a lookup with that key; promise numbers are not used twice.
\<close>

definition pending_inv :: "state \<Rightarrow> bool" where
  "pending_inv s =
     (distinct (map fst (lookups s))
      \<and> (\<forall>(p, l) \<in> set (lookups s).
            pendingRequests s (l_key l) = Some p
            \<and> l_key l = getCacheKey (l_title l) (l_year l) \<and> p < nextId s)
      \<and> (\<forall>k p. pendingRequests s k = Some p \<longrightarrow>
            (\<exists>l. (p, l) \<in> set (lookups s) \<and> l_key l = k)))"

text \<open>A transport or server error: the request is rejected, or the response is not \<open>ok\<close>.\<close>

definition is_error :: "fetch_outcome \<Rightarrow> bool" where
  "is_error outcome = (case outcome of Rejected \<Rightarrow> True | Response status b \<Rightarrow> \<not> ok status)"

text \<open>A call of \<open>searchMovie\<close> made less than \<open>CACHE_DURATION\<close> after the time \<open>t0\<close>.\<close>

fun within_ttl :: "int \<Rightarrow> event \<Rightarrow> bool" where
  "within_ttl t0 (Search t y now) = (now - t0 < CACHE_DURATION)"
| "within_ttl t0 (SetApiKey k) = True"
| "within_ttl t0 (TimerFires p now) = True"
| "within_ttl t0 (Respond p outcome now) = True"

section \<open>The browser component (\<open>ArchiveMovieBrowser\<close>)\<close>

text \<open>
  A catalogue item as \<open>archiveService.fetchMovies\<close> builds it, with the fields the
  filter reads. \<open>runtimeMinutes\<close> is the value of \<open>parseRuntime\<close>, \<open>None\<close> being \<open>NaN\<close>,
  with which every comparison is false.
\<close>

record movie =
  m_identifier :: string
  title :: string
  year :: "int option"
  runtimeMinutes :: "rat option"

text \<open>The first filter of \<open>filteredByRuntime\<close>: the content type and the runtime.\<close>

definition in_bucket :: "string \<Rightarrow> rat \<Rightarrow> movie \<Rightarrow> bool" where
  "in_bucket contentType minRuntime m =
     (if contentType = ''trailers''
      then (case runtimeMinutes m of None \<Rightarrow> False | Some r \<Rightarrow> r = 0 \<or> r \<le> 30)
      else (case runtimeMinutes m of None \<Rightarrow> False | Some r \<Rightarrow> r \<ge> minRuntime))"

text \<open>The callback of the second filter: \<open>False\<close> drops the item.\<close>

definition poster_not_missing :: "string set \<Rightarrow> cache \<Rightarrow> movie \<Rightarrow> bool" where
  "poster_not_missing moviesWithoutImages c m =
     (if m_identifier m \<in> moviesWithoutImages then False
      else if hasCachedPoster c (title m) (year m) = Some False then False
      else True)"

definition filteredByRuntime ::
  "movie list \<Rightarrow> rat \<Rightarrow> string \<Rightarrow> string \<Rightarrow> string \<Rightarrow> string set \<Rightarrow> cache \<Rightarrow> movie list" where
  "filteredByRuntime movies minRuntime contentType activeSearch tmdbApiKey
       moviesWithoutImages c =
     (let filtered = filter (in_bucket contentType minRuntime) movies
      in if activeSearch = [] \<and> tmdbApiKey \<noteq> []
         then filter (poster_not_missing moviesWithoutImages c) filtered
         else filtered)"

text \<open>
  \<open>fetchMovies(pageNum, shouldAppend)\<close> once the archive request has ended: the update it
  makes to the \<open>movies\<close> state. The request either fails (the \<open>catch\<close> branch) or delivers
  the items of a page.
\<close>

datatype page_result = Failed | Loaded "movie list"

definition fetchMovies :: "nat \<Rightarrow> bool \<Rightarrow> page_result \<Rightarrow> movie list \<Rightarrow> movie list" where
  "fetchMovies pageNum shouldAppend res prev =
     (case res of
        Loaded ms \<Rightarrow>
          if shouldAppend \<and> pageNum > 1
          then (let existingIds = set (map m_identifier prev);
                    newMovies = filter (\<lambda>m. m_identifier m \<notin> existingIds) ms
                in prev @ newMovies)
          else ms
      | Failed \<Rightarrow> if \<not> shouldAppend then [] else prev)"

text \<open>A delivered page lists no identifier twice.\<close>

definition distinct_page :: "nat \<times> page_result \<Rightarrow> bool" where
  "distinct_page h =
     (case snd h of Failed \<Rightarrow> True | Loaded ms \<Rightarrow> distinct (map m_identifier ms))"

text \<open>
  The two effects call \<open>fetchMovies(1, false)\<close> when the page is 1 and
  \<open>fetchMovies(page, true)\<close> when it is larger. A history of the collection is the list
  of the requests that ended, each with its page number and what it delivered.
\<close>

fun load_all :: "(nat \<times> page_result) list \<Rightarrow> movie list \<Rightarrow> movie list" where
  "load_all [] ms = ms"
| "load_all ((pageNum, res) # rest) ms =
     load_all rest (fetchMovies pageNum (pageNum > 1) res ms)"

section \<open>Sample data\<close>

text \<open>A candidate with the given title and poster path, for evaluating the model.\<close>

definition candidate :: "int \<Rightarrow> string \<Rightarrow> string option \<Rightarrow> tmdb_movie" where
  "candidate n t p =
     \<lparr>tm_id = n, tm_title = t, poster_path = p, backdrop_path = None, release_date = None,
      tm_overview = None, vote_average = 0, genre_ids = []\<rparr>"

text \<open>A catalogue item, for evaluating the model.\<close>

definition film :: "string \<Rightarrow> string \<Rightarrow> int option \<Rightarrow> rat \<Rightarrow> movie" where
  "film i t y r = \<lparr>m_identifier = i, title = t, year = y, runtimeMinutes = Some r\<rparr>"

section \<open>Evaluation rules\<close>

lemmas string_defs =
  getCacheKey_def trim_def trimEnd_def toLowerCase_def toLowerChar_def is_space_def

lemmas service_defs =
  run_def setApiKey_def searchMovie_def throttledFetch_def timer_fires_def respond_def
  getFromCache_def setCache_def init_state_def truthy_str_def fetch_result_def ok_def
  MIN_REQUEST_INTERVAL_def CACHE_DURATION_def Let_def

lemmas clean_defs =
  cleanTitle_def strip_year_suffix_def strip_dash_year_def replace_special_def
  trim_def trimEnd_def is_space_def is_digit_def is_word_def is_alnum_def


section \<open>Runtime parsing\<close>







section \<open>The rate limiter\<close>

text \<open>
  C6: three lookups for distinct keys are started at 1000, 1001 and 1002 ms. The first
  request is issued at once. The second and the third caller each find the last request
  less than 100 ms old and sleep until 1100; when their timers fire, neither looks at
  \<open>lastRequestTime\<close> again, and both requests are issued at 1100, 0 ms apart.
\<close>

theorem throttledFetch_burst:
  "map (\<lambda>(p, l). l_stage l)
     (lookups (run [SetApiKey (Some ''key''), Search ''a'' None 1000, Search ''b'' None 1001,
                    Search ''c'' None 1002] (init_state Map.empty)))
     = [Fetching, Waiting 1100, Waiting 1100]
   \<and> issued (run [SetApiKey (Some ''key''), Search ''a'' None 1000, Search ''b'' None 1001,
                  Search ''c'' None 1002, TimerFires 1 1100, TimerFires 2 1100]
               (init_state Map.empty)) = [1000, 1100, 1100]"
  by (simp add: service_defs string_defs)

section \<open>Errors and the cache\<close>

text \<open>
  C1, as the claim states it: the outcome of a failed request is not written to the
  cache, and the next lookup tries the network again. A lookup for \<open>Alien\<close> is answered
  with status 500: the cache then holds \<open>null\<close> under the key, and a lookup 800 ms later
  is answered \<open>null\<close> from the cache, in an unchanged state, so without a request.
\<close>

theorem error_outcome_cached_counterexample:
  "let s = run [SetApiKey (Some ''key''), Search ''Alien'' None 1000,
                Respond 0 (Response 500 Invalid) 1200] (init_state Map.empty)
   in issued s = [1000] \<and>
      tmdbCache s ''alien-unknown'' = Some \<lparr>data = None, timestamp = 1200\<rparr> \<and>
      searchMovie ''Alien'' None 2000 s = (Resolved None, s)"
  by (simp add: service_defs string_defs)

section \<open>Best match\<close>

lemma startsWith_iff: "startsWith s t \<longleftrightarrow> (\<exists>post. s = t @ post)"
  by (induction s t rule: startsWith.induct) auto

lemma includes_str_iff: "includes_str s t \<longleftrightarrow> (\<exists>pre post. s = pre @ t @ post)"
proof (induction s)
  case Nil
  then show ?case by simp
next
  case (Cons c s)
  show ?case
  proof
    assume "includes_str (c # s) t"
    then consider "startsWith (c # s) t" | "includes_str s t" by auto
    then show "\<exists>pre post. c # s = pre @ t @ post"
    proof cases
      case 1
      then obtain post where "c # s = t @ post" by (auto simp: startsWith_iff)
      then have "c # s = [] @ t @ post" by simp
      then show ?thesis by blast
    next
      case 2
      then obtain pre post where "s = pre @ t @ post" using Cons.IH by auto
      then have "c # s = (c # pre) @ t @ post" by simp
      then show ?thesis by blast
    qed
  next
    assume "\<exists>pre post. c # s = pre @ t @ post"
    then obtain pre post where e: "c # s = pre @ t @ post" by auto
    show "includes_str (c # s) t"
    proof (cases pre)
      case Nil
      with e have "startsWith (c # s) t" by (auto simp: startsWith_iff)
      then show ?thesis by simp
    next
      case (Cons d pre')
      with e have "s = pre' @ t @ post" by simp
      then have "includes_str s t" using Cons.IH by blast
      then show ?thesis by simp
    qed
  qed
qed

lemma title_matches_iff:
  "title_matches q c =
    (toLowerCase (tm_title c) = toLowerCase q
     \<or> (\<exists>pre post. toLowerCase (tm_title c) = pre @ toLowerCase q @ post)
     \<or> (\<exists>pre post. toLowerCase q = pre @ toLowerCase (tm_title c) @ post))"
  by (simp add: title_matches_def includes_str_iff Let_def)

lemma find_Some_member: "find P xs = Some m \<Longrightarrow> m \<in> set xs \<and> P m"
  by (induction xs) (auto split: if_splits)

lemma find_None_all: "(find P xs = None) = (\<forall>x \<in> set xs. \<not> P x)"
  by (induction xs) auto

lemma bestMatch_Cons:
  "bestMatch q (Some (r0 # rs)) =
     (case find (title_matches q) (r0 # rs) of
        Some m \<Rightarrow> Some m
      | None \<Rightarrow> if truthy_str (poster_path r0) then Some r0 else None)"
  by (simp add: bestMatch_def del: find.simps)

lemma bestMatch_some_match:
  assumes "\<exists>c \<in> set (r0 # rs). title_matches q c"
  shows "\<exists>m. bestMatch q (Some (r0 # rs)) = Some m \<and> m \<in> set (r0 # rs) \<and> title_matches q m"
proof -
  from assms have "find (title_matches q) (r0 # rs) \<noteq> None"
    unfolding find_None_all by blast
  then obtain m where f: "find (title_matches q) (r0 # rs) = Some m"
    by blast
  from find_Some_member [OF f] have "m \<in> set (r0 # rs) \<and> title_matches q m" .
  moreover have "bestMatch q (Some (r0 # rs)) = Some m"
    unfolding bestMatch_Cons f by simp
  ultimately show ?thesis by blast
qed

lemma bestMatch_no_match:
  assumes "\<forall>c \<in> set (r0 # rs). \<not> title_matches q c"
  shows "bestMatch q (Some (r0 # rs)) = (if truthy_str (poster_path r0) then Some r0 else None)"
proof -
  from assms have "find (title_matches q) (r0 # rs) = None"
    unfolding find_None_all .
  then show ?thesis unfolding bestMatch_Cons by simp
qed

lemma bestMatch_alien:
  "bestMatch (cleanTitle ''Alien'')
      (Some [a\<lparr>tm_title := ''Alien''\<rparr>, b\<lparr>tm_title := ''Aliens''\<rparr>, c\<lparr>tm_title := ''Alien 3''\<rparr>])
    = Some (a\<lparr>tm_title := ''Alien''\<rparr>)"
  by (simp add: bestMatch_def title_matches_def toLowerCase_def toLowerChar_def clean_defs)

text \<open>
  C4: for a ranked list \<open>r0 # rs\<close> of candidates and a query title \<open>q\<close>, the selection
  returns a candidate of the list whose title, compared in lower case, equals, contains
  or is contained in the query title whenever the list has such a candidate; when it has
  none, the selection is the top-ranked candidate \<open>r0\<close> if \<open>r0\<close> has a poster path and no
  match otherwise. For the candidates titled \<open>Alien\<close>, \<open>Aliens\<close>, \<open>Alien 3\<close>, in this
  order, and the query \<open>Alien\<close>, it selects \<open>Alien\<close>.
\<close>

theorem bestMatch_selection:
  "((\<exists>c \<in> set (r0 # rs). title_matches q c) \<longrightarrow>
      (\<exists>m. bestMatch q (Some (r0 # rs)) = Some m \<and> m \<in> set (r0 # rs) \<and> title_matches q m))
   \<and> ((\<forall>c \<in> set (r0 # rs). \<not> title_matches q c) \<longrightarrow>
      bestMatch q (Some (r0 # rs)) = (if truthy_str (poster_path r0) then Some r0 else None))
   \<and> title_matches q m' =
       (toLowerCase (tm_title m') = toLowerCase q
        \<or> (\<exists>pre post. toLowerCase (tm_title m') = pre @ toLowerCase q @ post)
        \<or> (\<exists>pre post. toLowerCase q = pre @ toLowerCase (tm_title m') @ post))
   \<and> bestMatch (cleanTitle ''Alien'')
       (Some [a\<lparr>tm_title := ''Alien''\<rparr>, b\<lparr>tm_title := ''Aliens''\<rparr>, c\<lparr>tm_title := ''Alien 3''\<rparr>])
     = Some (a\<lparr>tm_title := ''Alien''\<rparr>)"
  using bestMatch_some_match [of r0 rs q] bestMatch_no_match [of r0 rs q]
    title_matches_iff [of q m'] bestMatch_alien [of a b c]
  by blast

theorem bestMatch_selection_witness:
  "(\<exists>c \<in> set [candidate 1 ''Zorro'' None, candidate 2 ''Aliens'' None]. title_matches ''Alien'' c)
   \<and> (\<exists>m. bestMatch ''Alien'' (Some [candidate 1 ''Zorro'' None, candidate 2 ''Aliens'' None]) = Some m
        \<and> m \<in> set [candidate 1 ''Zorro'' None, candidate 2 ''Aliens'' None]
        \<and> title_matches ''Alien'' m)
   \<and> \<not> title_matches ''Alien'' (candidate 1 ''Zorro'' (Some ''/z.jpg''))
   \<and> bestMatch ''Alien'' (Some [candidate 1 ''Zorro'' (Some ''/z.jpg'')])
       = Some (candidate 1 ''Zorro'' (Some ''/z.jpg''))"
proof -
  have h1: "\<exists>c \<in> set [candidate 1 ''Zorro'' None, candidate 2 ''Aliens'' None].
      title_matches ''Alien'' c"
    by (simp add: candidate_def title_matches_def toLowerCase_def toLowerChar_def)
  have h2: "\<forall>c \<in> set [candidate 1 ''Zorro'' (Some ''/z.jpg'')]. \<not> title_matches ''Alien'' c"
    by (simp add: candidate_def title_matches_def toLowerCase_def toLowerChar_def)
  have p: "truthy_str (poster_path (candidate 1 ''Zorro'' (Some ''/z.jpg'')))"
    by (simp add: candidate_def truthy_str_def)
  from bestMatch_selection [of "candidate 1 ''Zorro'' None" "[candidate 2 ''Aliens'' None]" "''Alien''"] h1
  have c1: "\<exists>m. bestMatch ''Alien'' (Some [candidate 1 ''Zorro'' None, candidate 2 ''Aliens'' None]) = Some m
        \<and> m \<in> set [candidate 1 ''Zorro'' None, candidate 2 ''Aliens'' None]
        \<and> title_matches ''Alien'' m"
    by blast
  from bestMatch_selection [of "candidate 1 ''Zorro'' (Some ''/z.jpg'')" "[]" "''Alien''"] h2 p
  have c2: "bestMatch ''Alien'' (Some [candidate 1 ''Zorro'' (Some ''/z.jpg'')])
       = Some (candidate 1 ''Zorro'' (Some ''/z.jpg''))"
    by presburger
  from h2 have h3: "\<not> title_matches ''Alien'' (candidate 1 ''Zorro'' (Some ''/z.jpg''))"
    by simp
  from h1 c1 h3 c2 show ?thesis by blast
qed

section \<open>The cache read\<close>

lemma respond_cache:
  assumes "map_of (lookups s) p = Some l" and "l_stage l = Fetching"
  shows "tmdbCache (respond p out now s) (getCacheKey (l_title l) (l_year l)) =
           Some \<lparr>data = fetch_result (cleanTitle (l_title l)) out, timestamp = now\<rparr>"
  using assms by (simp add: respond_def setCache_def Let_def)

lemma searchMovie_cached:
  assumes "enabled s" and "getFromCache (tmdbCache s) t y now = (True, d)"
  shows "searchMovie t y now s = (Resolved d, s)"
  using assms by (simp add: searchMovie_def Let_def)

text \<open>
  C8: \<open>getFromCache\<close> answers \<open>found = false\<close> for a key without an entry and for an
  entry that is \<open>CACHE_DURATION\<close> old or older, and \<open>found = true\<close> with the stored value
  for a younger entry. Once the request of a lookup has ended, the read for its title and
  year is \<open>found = true\<close> with the value of the lookup, which is \<open>null\<close> when the
  response was successful and empty. A caller of \<open>searchMovie\<close> that meets
  \<open>found = true\<close> with \<open>null\<close> is answered \<open>null\<close> in an unchanged state, without a
  request. \<open>hasCachedPoster\<close> tells the same three cases apart: \<open>null\<close> without an entry,
  \<open>false\<close> for an entry holding \<open>null\<close>, \<open>true\<close> for an entry with a poster path.
\<close>

theorem cache_read_three_states:
  "(c (getCacheKey t y) = None \<longrightarrow> getFromCache c t y now = (False, None))
   \<and> (c (getCacheKey t y) = Some e \<and> CACHE_DURATION \<le> now - timestamp e \<longrightarrow>
        getFromCache c t y now = (False, None))
   \<and> (c (getCacheKey t y) = Some e \<and> now - timestamp e < CACHE_DURATION \<longrightarrow>
        getFromCache c t y now = (True, data e))
   \<and> (map_of (lookups s) p = Some l \<and> l_stage l = Fetching \<and> now - t2 < CACHE_DURATION \<longrightarrow>
        getFromCache (tmdbCache (respond p out t2 s)) (l_title l) (l_year l) now =
          (True, fetch_result (cleanTitle (l_title l)) out))
   \<and> fetch_result q (Response 200 (Data (Some []))) = None
   \<and> (enabled s \<and> getFromCache (tmdbCache s) t y now = (True, None) \<longrightarrow>
        searchMovie t y now s = (Resolved None, s))
   \<and> (c (getCacheKey t y) = None \<longrightarrow> hasCachedPoster c t y = None)
   \<and> (c (getCacheKey t y) = Some e \<and> data e = None \<longrightarrow> hasCachedPoster c t y = Some False)
   \<and> (c (getCacheKey t y) = Some e \<and> data e = Some r \<and> truthy_str (posterPath r) \<longrightarrow>
        hasCachedPoster c t y = Some True)"
  using respond_cache [of s p l out t2] searchMovie_cached [of s t y now None]
  by (simp add: getFromCache_def hasCachedPoster_def fetch_result_def ok_def bestMatch_def)

theorem cache_read_three_states_witness:
  "getFromCache Map.empty ''Alien'' None 2000 = (False, None)
   \<and> hasCachedPoster Map.empty ''Alien'' None = None
   \<and> getFromCache [''alien-unknown'' \<mapsto> \<lparr>data = None, timestamp = 1000\<rparr>] ''Alien'' None 2000
       = (True, None)
   \<and> hasCachedPoster [''alien-unknown'' \<mapsto> \<lparr>data = None, timestamp = 1000\<rparr>] ''Alien'' None
       = Some False
   \<and> getFromCache [''alien-unknown'' \<mapsto> \<lparr>data = None, timestamp = 1000\<rparr>] ''Alien'' None
       (1000 + CACHE_DURATION) = (False, None)
   \<and> hasCachedPoster
       [''alien-unknown'' \<mapsto> \<lparr>data = Some (to_match (candidate 348 ''Alien'' (Some ''/a.jpg''))),
                                timestamp = 1000\<rparr>] ''Alien'' None = Some True
   \<and> getFromCache
       (tmdbCache (respond 0 (Response 200 (Data (Some []))) 1200
          (run [SetApiKey (Some ''key''), Search ''Alien'' None 1000] (init_state Map.empty))))
       ''Alien'' None 2000 = (True, None)
   \<and> searchMovie ''Alien'' None 2000
       (run [SetApiKey (Some ''key''), Search ''Alien'' None 1000,
             Respond 0 (Response 200 (Data (Some []))) 1200] (init_state Map.empty))
       = (Resolved None,
          run [SetApiKey (Some ''key''), Search ''Alien'' None 1000,
               Respond 0 (Response 200 (Data (Some []))) 1200] (init_state Map.empty))"
proof -
  let ?neg = "[''alien-unknown'' \<mapsto> \<lparr>data = None, timestamp = 1000\<rparr>]"
  let ?pos = "[''alien-unknown'' \<mapsto>
      \<lparr>data = Some (to_match (candidate 348 ''Alien'' (Some ''/a.jpg''))), timestamp = 1000\<rparr>]"
  let ?s1 = "run [SetApiKey (Some ''key''), Search ''Alien'' None 1000] (init_state Map.empty)"
  let ?s2 = "run [SetApiKey (Some ''key''), Search ''Alien'' None 1000,
             Respond 0 (Response 200 (Data (Some []))) 1200] (init_state Map.empty)"
  let ?l = "\<lparr>l_title = ''Alien'', l_year = None, l_key = ''alien-unknown'', l_stage = Fetching\<rparr>"
  have k: "getCacheKey ''Alien'' None = ''alien-unknown''"
    by (simp add: string_defs)
  have a: "getFromCache Map.empty ''Alien'' None 2000 = (False, None)
      \<and> hasCachedPoster Map.empty ''Alien'' None = None"
    using cache_read_three_states [where c = Map.empty and t = "''Alien''" and y = None and now = 2000]
    by simp
  have b: "getFromCache ?neg ''Alien'' None 2000 = (True, None)
      \<and> hasCachedPoster ?neg ''Alien'' None = Some False"
    using cache_read_three_states [where c = ?neg and t = "''Alien''" and y = None and now = 2000
        and e = "\<lparr>data = None, timestamp = 1000\<rparr>"]
    by (simp add: k CACHE_DURATION_def)
  have c: "getFromCache ?neg ''Alien'' None (1000 + CACHE_DURATION) = (False, None)"
    using cache_read_three_states [where c = ?neg and t = "''Alien''" and y = None
        and now = "1000 + CACHE_DURATION" and e = "\<lparr>data = None, timestamp = 1000\<rparr>"]
    by (simp add: k)
  have d: "hasCachedPoster ?pos ''Alien'' None = Some True"
    using cache_read_three_states [where c = ?pos and t = "''Alien''" and y = None and now = 2000
        and e = "\<lparr>data = Some (to_match (candidate 348 ''Alien'' (Some ''/a.jpg''))),
                  timestamp = 1000\<rparr>"
        and r = "to_match (candidate 348 ''Alien'' (Some ''/a.jpg''))"]
    by (simp add: k to_match_def candidate_def truthy_str_def)
  have l: "map_of (lookups ?s1) 0 = Some ?l"
    by (simp add: service_defs string_defs)
  have e: "getFromCache (tmdbCache (respond 0 (Response 200 (Data (Some []))) 1200 ?s1))
       ''Alien'' None 2000 = (True, None)"
    using cache_read_three_states [where now = 2000 and s = ?s1 and p = 0 and l = ?l and ?t2.0 = 1200
        and out = "Response 200 (Data (Some []))" and q = "cleanTitle ''Alien''"] l
    by (simp add: CACHE_DURATION_def)
  have s2: "?s2 = respond 0 (Response 200 (Data (Some []))) 1200 ?s1"
    by (simp add: run_def)
  have en: "enabled ?s2"
    by (simp add: service_defs string_defs)
  have f: "searchMovie ''Alien'' None 2000 ?s2 = (Resolved None, ?s2)"
    using cache_read_three_states [where t = "''Alien''" and y = None and now = 2000 and s = ?s2] e en
    unfolding s2 by simp
  from a b c d e f show ?thesis by blast
qed

section \<open>The filter\<close>

text \<open>
  C7: an item of the collection that passes the content type and runtime filter is kept
  whenever a search is active, and whenever there is no API key; with an API key and no
  active search it is kept exactly when its identifier has not been reported as lacking
  an image and the cache does not hold \<open>null\<close> for its title and year, which is the case
  in which \<open>hasCachedPoster\<close> answers \<open>false\<close>. Items that fail the first filter are
  never shown.
\<close>

theorem filteredByRuntime_poster_exclusion:
  assumes "m \<in> set movies" and "in_bucket contentType minRuntime m"
  shows "(activeSearch \<noteq> [] \<longrightarrow>
            m \<in> set (filteredByRuntime movies minRuntime contentType activeSearch tmdbApiKey mwi c))
       \<and> (tmdbApiKey = [] \<longrightarrow>
            m \<in> set (filteredByRuntime movies minRuntime contentType activeSearch tmdbApiKey mwi c))
       \<and> (activeSearch = [] \<and> tmdbApiKey \<noteq> [] \<longrightarrow>
            (m \<in> set (filteredByRuntime movies minRuntime contentType activeSearch tmdbApiKey mwi c))
              = (m_identifier m \<notin> mwi \<and> hasCachedPoster c (title m) (year m) \<noteq> Some False))
       \<and> (hasCachedPoster c (title m) (year m) = Some False) =
            (\<exists>ts. c (getCacheKey (title m) (year m)) = Some \<lparr>data = None, timestamp = ts\<rparr>)
       \<and> set (filteredByRuntime movies minRuntime contentType activeSearch tmdbApiKey mwi c)
            \<subseteq> {x \<in> set movies. in_bucket contentType minRuntime x}"
proof -
  have cached: "(hasCachedPoster c (title m) (year m) = Some False) =
      (\<exists>ts. c (getCacheKey (title m) (year m)) = Some \<lparr>data = None, timestamp = ts\<rparr>)"
  proof (cases "c (getCacheKey (title m) (year m))")
    case None
    then show ?thesis by (simp add: hasCachedPoster_def)
  next
    case (Some e)
    then show ?thesis
      by (cases e) (simp add: hasCachedPoster_def split: option.splits)
  qed
  have rest: "(activeSearch \<noteq> [] \<longrightarrow>
            m \<in> set (filteredByRuntime movies minRuntime contentType activeSearch tmdbApiKey mwi c))
       \<and> (tmdbApiKey = [] \<longrightarrow>
            m \<in> set (filteredByRuntime movies minRuntime contentType activeSearch tmdbApiKey mwi c))
       \<and> (activeSearch = [] \<and> tmdbApiKey \<noteq> [] \<longrightarrow>
            (m \<in> set (filteredByRuntime movies minRuntime contentType activeSearch tmdbApiKey mwi c))
              = (m_identifier m \<notin> mwi \<and> hasCachedPoster c (title m) (year m) \<noteq> Some False))
       \<and> set (filteredByRuntime movies minRuntime contentType activeSearch tmdbApiKey mwi c)
            \<subseteq> {x \<in> set movies. in_bucket contentType minRuntime x}"
    using assms by (auto simp: filteredByRuntime_def poster_not_missing_def Let_def split: if_splits)
  from rest cached show ?thesis by blast
qed

theorem filteredByRuntime_poster_exclusion_witness:
  "film ''nosferatu'' ''Nosferatu'' (Some 1922) 94 \<in> set [film ''nosferatu'' ''Nosferatu'' (Some 1922) 94]
   \<and> in_bucket ''features'' 40 (film ''nosferatu'' ''Nosferatu'' (Some 1922) 94)
   \<and> filteredByRuntime [film ''nosferatu'' ''Nosferatu'' (Some 1922) 94] 40 ''features''
        ''nosferatu'' ''key'' {''nosferatu''} Map.empty
        = [film ''nosferatu'' ''Nosferatu'' (Some 1922) 94]
   \<and> filteredByRuntime [film ''nosferatu'' ''Nosferatu'' (Some 1922) 94] 40 ''features''
        [] [] {''nosferatu''} Map.empty
        = [film ''nosferatu'' ''Nosferatu'' (Some 1922) 94]
   \<and> filteredByRuntime [film ''nosferatu'' ''Nosferatu'' (Some 1922) 94] 40 ''features''
        [] ''key'' {''nosferatu''} Map.empty = []
   \<and> filteredByRuntime [film ''nosferatu'' ''Nosferatu'' (Some 1922) 94] 40 ''features''
        [] ''key'' {} [''nosferatu-1922'' \<mapsto> \<lparr>data = None, timestamp = 1000\<rparr>] = []
   \<and> filteredByRuntime [film ''nosferatu'' ''Nosferatu'' (Some 1922) 94] 40 ''features''
        [] ''key'' {} Map.empty = [film ''nosferatu'' ''Nosferatu'' (Some 1922) 94]"
proof -
  let ?m = "film ''nosferatu'' ''Nosferatu'' (Some 1922) 94"
  have k: "getCacheKey ''Nosferatu'' (Some 1922) = ''nosferatu-1922''"
    by (simp add: string_defs) code_simp
  have mem: "?m \<in> set [?m]" by simp
  have bucket: "in_bucket ''features'' 40 ?m"
    by (simp add: in_bucket_def film_def)
  note inst = filteredByRuntime_poster_exclusion [OF mem bucket]
  have a: "filteredByRuntime [?m] 40 ''features'' ''nosferatu'' ''key'' {''nosferatu''} Map.empty = [?m]"
    using inst [where activeSearch = "''nosferatu''" and tmdbApiKey = "''key''"
        and mwi = "{''nosferatu''}" and c = Map.empty] bucket
    by (simp add: filteredByRuntime_def)
  have b: "filteredByRuntime [?m] 40 ''features'' [] [] {''nosferatu''} Map.empty = [?m]"
    using inst [where activeSearch = "[]" and tmdbApiKey = "[]"
        and mwi = "{''nosferatu''}" and c = Map.empty] bucket
    by (simp add: filteredByRuntime_def)
  have c: "filteredByRuntime [?m] 40 ''features'' [] ''key'' {''nosferatu''} Map.empty = []"
    using inst [where activeSearch = "[]" and tmdbApiKey = "''key''"
        and mwi = "{''nosferatu''}" and c = Map.empty] bucket
    by (simp add: filteredByRuntime_def film_def)
  have d: "filteredByRuntime [?m] 40 ''features'' [] ''key'' {}
      [''nosferatu-1922'' \<mapsto> \<lparr>data = None, timestamp = 1000\<rparr>] = []"
    using inst [where activeSearch = "[]" and tmdbApiKey = "''key''"
        and mwi = "{}" and c = "[''nosferatu-1922'' \<mapsto> \<lparr>data = None, timestamp = 1000\<rparr>]"] bucket
    by (simp add: filteredByRuntime_def film_def k hasCachedPoster_def)
  have e: "filteredByRuntime [?m] 40 ''features'' [] ''key'' {} Map.empty = [?m]"
    using inst [where activeSearch = "[]" and tmdbApiKey = "''key''"
        and mwi = "{}" and c = Map.empty] bucket
    by (simp add: filteredByRuntime_def film_def k hasCachedPoster_def)
  from mem bucket a b c d e show ?thesis by blast
qed

section \<open>The collection\<close>

lemma distinct_append_new:
  assumes "distinct (map m_identifier prev)" and "distinct (map m_identifier ms)"
  shows "distinct (map m_identifier
           (prev @ filter (\<lambda>m. m_identifier m \<notin> set (map m_identifier prev)) ms))"
  using assms by (auto simp: distinct_map_filter) (metis imageI)

lemma fetchMovies_distinct:
  assumes "distinct (map m_identifier prev)" and "distinct_page (n, res)"
  shows "distinct (map m_identifier (fetchMovies n b res prev))"
proof (cases res)
  case Failed
  with assms show ?thesis by (simp add: fetchMovies_def)
next
  case (Loaded ms)
  with assms have "distinct (map m_identifier ms)" by (simp add: distinct_page_def)
  with assms(1) Loaded show ?thesis
    using distinct_append_new [of prev ms] by (simp add: fetchMovies_def)
qed

lemma load_all_distinct:
  "distinct (map m_identifier ms0) \<Longrightarrow> list_all distinct_page hist \<Longrightarrow>
   distinct (map m_identifier (load_all hist ms0))"
proof (induction hist arbitrary: ms0)
  case Nil
  then show ?case by simp
next
  case (Cons h hist)
  obtain n res where h: "h = (n, res)" by (cases h)
  with Cons.prems have "distinct_page (n, res)" and rest: "list_all distinct_page hist" by simp_all
  with Cons.prems(1) have "distinct (map m_identifier (fetchMovies n (1 < n) res ms0))"
    by (rule_tac fetchMovies_distinct)
  from Cons.IH [OF this rest] h show ?case by simp
qed

text \<open>
  C10, as the claim states it: after any sequence of loads and appends the collection
  holds at most one item per identifier. The first page delivers \<open>a\<close>, and the second
  page lists \<open>b\<close> twice: neither copy of \<open>b\<close> is in the collection yet, both are
  appended, and the collection holds \<open>b\<close> twice.
\<close>

theorem collection_identifiers_counterexample:
  "load_all [(1, Loaded [film ''a'' ''A'' None 90]),
             (2, Loaded [film ''b'' ''B'' None 90, film ''b'' ''B'' None 90])] []
     = [film ''a'' ''A'' None 90, film ''b'' ''B'' None 90, film ''b'' ''B'' None 90]
   \<and> \<not> distinct (map m_identifier
         (load_all [(1, Loaded [film ''a'' ''A'' None 90]),
                    (2, Loaded [film ''b'' ''B'' None 90, film ''b'' ''B'' None 90])] []))"
  by (simp add: fetchMovies_def film_def)

text \<open>
  C10, amended: provided no delivered page lists an identifier twice, after any sequence
  of loads and appends, starting from the empty collection, the collection holds at
  most one item per identifier; an append to \<open>prev\<close> keeps \<open>prev\<close> and adds, in order, the
  delivered items whose identifier does not occur in \<open>prev\<close>.
\<close>

theorem collection_identifiers_distinct:
  assumes "list_all distinct_page hist"
  shows "distinct (map m_identifier (load_all hist []))
       \<and> (1 < pageNum \<longrightarrow>
            fetchMovies pageNum True (Loaded ms) prev =
              prev @ filter (\<lambda>m. m_identifier m \<notin> set (map m_identifier prev)) ms)"
  using load_all_distinct [of "[]" hist] assms by (simp add: fetchMovies_def)

theorem collection_identifiers_distinct_witness:
  "list_all distinct_page
     [(1, Loaded [film ''a'' ''A'' None 90, film ''b'' ''B'' None 90]),
      (2, Loaded [film ''b'' ''B'' None 90, film ''c'' ''C'' None 90])]
   \<and> distinct (map m_identifier (load_all
       [(1, Loaded [film ''a'' ''A'' None 90, film ''b'' ''B'' None 90]),
        (2, Loaded [film ''b'' ''B'' None 90, film ''c'' ''C'' None 90])] []))
   \<and> load_all
       [(1, Loaded [film ''a'' ''A'' None 90, film ''b'' ''B'' None 90]),
        (2, Loaded [film ''b'' ''B'' None 90, film ''c'' ''C'' None 90])] []
     = [film ''a'' ''A'' None 90, film ''b'' ''B'' None 90, film ''c'' ''C'' None 90]
   \<and> (1::nat) < 2
   \<and> fetchMovies 2 True (Loaded [film ''b'' ''B'' None 90, film ''c'' ''C'' None 90])
         [film ''a'' ''A'' None 90, film ''b'' ''B'' None 90]
     = [film ''a'' ''A'' None 90, film ''b'' ''B'' None 90, film ''c'' ''C'' None 90]"
proof -
  let ?hist = "[(1, Loaded [film ''a'' ''A'' None 90, film ''b'' ''B'' None 90]),
      (2, Loaded [film ''b'' ''B'' None 90, film ''c'' ''C'' None 90])]"
  have h: "list_all distinct_page ?hist"
    by (simp add: distinct_page_def film_def)
  have v: "load_all ?hist [] = [film ''a'' ''A'' None 90, film ''b'' ''B'' None 90, film ''c'' ''C'' None 90]"
    by (simp add: fetchMovies_def film_def)
  from collection_identifiers_distinct [OF h, of 2 "[film ''b'' ''B'' None 90, film ''c'' ''C'' None 90]"
      "[film ''a'' ''A'' None 90, film ''b'' ''B'' None 90]"] h v
  show ?thesis by (simp add: film_def)
qed

section \<open>De-duplication of lookups\<close>

lemma pending_inv_init: "pending_inv (init_state c)"
  by (simp add: pending_inv_def init_state_def)

lemma pending_inv_setApiKey: "pending_inv s \<Longrightarrow> pending_inv (setApiKey k s)"
  by (simp add: pending_inv_def setApiKey_def)

lemma throttledFetch_fields:
  "lookups (snd (throttledFetch now s)) = lookups s"
  "pendingRequests (snd (throttledFetch now s)) = pendingRequests s"
  "nextId (snd (throttledFetch now s)) = nextId s"
  "tmdbCache (snd (throttledFetch now s)) = tmdbCache s"
  "enabled (snd (throttledFetch now s)) = enabled s"
  "resolved (snd (throttledFetch now s)) = resolved s"
  by (simp_all add: throttledFetch_def Let_def)

text \<open>The state after a call of \<open>searchMovie\<close> that starts a lookup.\<close>

lemma searchMovie_new:
  assumes "enabled s" and "\<not> fst (getFromCache (tmdbCache s) t y now)"
    and "pendingRequests s (getCacheKey t y) = None"
  shows "fst (searchMovie t y now s) = Pending (nextId s)"
    and "lookups (snd (searchMovie t y now s)) =
           lookups s @ [(nextId s, \<lparr>l_title = t, l_year = y, l_key = getCacheKey t y,
                                   l_stage = fst (throttledFetch now s)\<rparr>)]"
    and "pendingRequests (snd (searchMovie t y now s)) =
           (pendingRequests s)(getCacheKey t y \<mapsto> nextId s)"
    and "nextId (snd (searchMovie t y now s)) = Suc (nextId s)"
    and "tmdbCache (snd (searchMovie t y now s)) = tmdbCache s"
  using assms
  by (simp_all add: searchMovie_def Let_def split_beta throttledFetch_fields)

lemma searchMovie_old:
  assumes "\<not> enabled s \<or> fst (getFromCache (tmdbCache s) t y now)
     \<or> pendingRequests s (getCacheKey t y) \<noteq> None"
  shows "snd (searchMovie t y now s) = s"
  using assms by (auto simp: searchMovie_def Let_def split: option.splits)

lemma pending_inv_searchMovie:
  assumes "pending_inv s"
  shows "pending_inv (snd (searchMovie t y now s))"
proof (cases "\<not> enabled s \<or> fst (getFromCache (tmdbCache s) t y now)
     \<or> pendingRequests s (getCacheKey t y) \<noteq> None")
  case True
  with assms show ?thesis by (simp add: searchMovie_old)
next
  case False
  then have en: "enabled s" and miss: "\<not> fst (getFromCache (tmdbCache s) t y now)"
    and free: "pendingRequests s (getCacheKey t y) = None"
    by auto
  note new = searchMovie_new [OF en miss free]
  let ?s' = "snd (searchMovie t y now s)"
  let ?k = "getCacheKey t y"
  from assms have d: "distinct (map fst (lookups s))"
    and reg: "\<And>p l. (p, l) \<in> set (lookups s) \<Longrightarrow>
          pendingRequests s (l_key l) = Some p
          \<and> l_key l = getCacheKey (l_title l) (l_year l) \<and> p < nextId s"
    and own: "\<And>k p. pendingRequests s k = Some p \<Longrightarrow>
          \<exists>l. (p, l) \<in> set (lookups s) \<and> l_key l = k"
    by (auto simp: pending_inv_def)
  have fresh: "nextId s \<notin> fst ` set (lookups s)"
    using reg by fastforce
  have 1: "distinct (map fst (lookups ?s'))"
    using d fresh by (simp add: new)
  have 2: "pendingRequests ?s' (l_key l) = Some p
          \<and> l_key l = getCacheKey (l_title l) (l_year l) \<and> p < nextId ?s'"
    if "(p, l) \<in> set (lookups ?s')" for p l
  proof (cases "(p, l) \<in> set (lookups s)")
    case True
    from reg [OF True] free have "l_key l \<noteq> ?k" by auto
    with reg [OF True] show ?thesis by (auto simp: new)
  next
    case False
    with that have "p = nextId s"
      and "l = \<lparr>l_title = t, l_year = y, l_key = ?k, l_stage = fst (throttledFetch now s)\<rparr>"
      by (simp_all add: new)
    then show ?thesis by (simp add: new)
  qed
  have 3: "\<exists>l. (p, l) \<in> set (lookups ?s') \<and> l_key l = k"
    if "pendingRequests ?s' k = Some p" for k p
  proof (cases "k = ?k")
    case True
    with that have "p = nextId s" by (simp add: new)
    with True show ?thesis by (force simp: new)
  next
    case False
    with that have "pendingRequests s k = Some p" by (simp add: new)
    from own [OF this] show ?thesis by (auto simp: new)
  qed
  from 1 2 3 show ?thesis
    unfolding pending_inv_def by blast
qed


lemma map_of_mem: "map_of xs p = Some l \<Longrightarrow> (p, l) \<in> set xs"
  by (rule map_of_SomeD)

lemma mem_map_of: "distinct (map fst xs) \<Longrightarrow> (p, l) \<in> set xs \<Longrightarrow> map_of xs p = Some l"
  by simp

lemma timer_fires_fields:
  "pendingRequests (timer_fires p now s) = pendingRequests s"
  "nextId (timer_fires p now s) = nextId s"
  "tmdbCache (timer_fires p now s) = tmdbCache s"
  "enabled (timer_fires p now s) = enabled s"
  "map fst (lookups (timer_fires p now s)) = map fst (lookups s)"
  by (auto simp: timer_fires_def split: option.splits stage.splits)

lemma timer_fires_lookup:
  assumes "(q, l') \<in> set (lookups (timer_fires p now s))"
  shows "\<exists>l. (q, l) \<in> set (lookups s) \<and> l_key l' = l_key l \<and> l_title l' = l_title l
           \<and> l_year l' = l_year l"
  using assms
  by (auto simp: timer_fires_def split: option.splits stage.splits if_splits)

lemma timer_fires_lookup_rev:
  assumes "(q, l) \<in> set (lookups s)"
  shows "\<exists>l'. (q, l') \<in> set (lookups (timer_fires p now s)) \<and> l_key l' = l_key l"
proof (cases "\<exists>l0 due. map_of (lookups s) p = Some l0 \<and> l_stage l0 = Waiting due \<and> due \<le> now")
  case False
  then have "timer_fires p now s = s"
    by (auto simp: timer_fires_def split: option.splits stage.splits)
  with assms show ?thesis by auto
next
  case True
  then have lk: "lookups (timer_fires p now s) =
      map (\<lambda>(q, l'). if q = p then (q, l'\<lparr>l_stage := Fetching\<rparr>) else (q, l')) (lookups s)"
    by (auto simp: timer_fires_def)
  show ?thesis
  proof (cases "q = p")
    case True
    with assms have "(q, l\<lparr>l_stage := Fetching\<rparr>) \<in> set (lookups (timer_fires p now s))"
      unfolding lk by force
    then show ?thesis by force
  next
    case False
    with assms have "(q, l) \<in> set (lookups (timer_fires p now s))"
      unfolding lk by force
    then show ?thesis by blast
  qed
qed

lemma pending_inv_timer_fires:
  assumes "pending_inv s"
  shows "pending_inv (timer_fires p now s)"
proof -
  let ?s' = "timer_fires p now s"
  from assms have d: "distinct (map fst (lookups s))"
    and reg: "\<And>p l. (p, l) \<in> set (lookups s) \<Longrightarrow>
          pendingRequests s (l_key l) = Some p
          \<and> l_key l = getCacheKey (l_title l) (l_year l) \<and> p < nextId s"
    and own: "\<And>k p. pendingRequests s k = Some p \<Longrightarrow>
          \<exists>l. (p, l) \<in> set (lookups s) \<and> l_key l = k"
    by (auto simp: pending_inv_def)
  have 1: "distinct (map fst (lookups ?s'))"
    using d by (simp add: timer_fires_fields)
  have 2: "pendingRequests ?s' (l_key l') = Some q
          \<and> l_key l' = getCacheKey (l_title l') (l_year l') \<and> q < nextId ?s'"
    if "(q, l') \<in> set (lookups ?s')" for q l'
  proof -
    from timer_fires_lookup [OF that] obtain l where "(q, l) \<in> set (lookups s)"
      and "l_key l' = l_key l" "l_title l' = l_title l" "l_year l' = l_year l"
      by blast
    with reg [of q l] show ?thesis by (auto simp: timer_fires_fields)
  qed
  have 3: "\<exists>l. (q, l) \<in> set (lookups ?s') \<and> l_key l = k"
    if "pendingRequests ?s' k = Some q" for k q
  proof -
    from that have "pendingRequests s k = Some q" by (simp add: timer_fires_fields)
    from own [OF this] obtain l where "(q, l) \<in> set (lookups s)" and "l_key l = k" by blast
    with timer_fires_lookup_rev [of q l s p now] show ?thesis by auto
  qed
  from 1 2 3 show ?thesis
    unfolding pending_inv_def by blast
qed

text \<open>The state after the request of a lookup has ended.\<close>

lemma respond_settles:
  assumes "map_of (lookups s) p = Some l" and "l_stage l = Fetching"
  shows "lookups (respond p out now s) = filter (\<lambda>(q, l'). q \<noteq> p) (lookups s)"
    and "pendingRequests (respond p out now s) = (pendingRequests s)(l_key l := None)"
    and "tmdbCache (respond p out now s) =
           setCache (tmdbCache s) (l_title l) (l_year l)
             (fetch_result (cleanTitle (l_title l)) out) now"
    and "nextId (respond p out now s) = nextId s"
    and "enabled (respond p out now s) = enabled s"
    and "resolved (respond p out now s) =
           resolved s @ [(p, fetch_result (cleanTitle (l_title l)) out)]"
  using assms by (simp_all add: respond_def Let_def)

lemma respond_idle:
  assumes "\<not> (\<exists>l. map_of (lookups s) p = Some l \<and> l_stage l = Fetching)"
  shows "respond p out now s = s"
  using assms by (auto simp: respond_def split: option.splits stage.splits)

lemma pending_inv_respond:
  assumes "pending_inv s"
  shows "pending_inv (respond p out now s)"
proof (cases "\<exists>l. map_of (lookups s) p = Some l \<and> l_stage l = Fetching")
  case False
  with assms show ?thesis by (simp add: respond_idle)
next
  case True
  then obtain l where l: "map_of (lookups s) p = Some l" and f: "l_stage l = Fetching"
    by blast
  note st = respond_settles [OF l f]
  let ?s' = "respond p out now s"
  from assms have d: "distinct (map fst (lookups s))"
    and reg: "\<And>p l. (p, l) \<in> set (lookups s) \<Longrightarrow>
          pendingRequests s (l_key l) = Some p
          \<and> l_key l = getCacheKey (l_title l) (l_year l) \<and> p < nextId s"
    and own: "\<And>k p. pendingRequests s k = Some p \<Longrightarrow>
          \<exists>l. (p, l) \<in> set (lookups s) \<and> l_key l = k"
    by (auto simp: pending_inv_def)
  from l have pl: "(p, l) \<in> set (lookups s)" by (rule map_of_SomeD)
  have 1: "distinct (map fst (lookups ?s'))"
    using d by (simp add: st distinct_map_filter)
  have 2: "pendingRequests ?s' (l_key l') = Some q
          \<and> l_key l' = getCacheKey (l_title l') (l_year l') \<and> q < nextId ?s'"
    if "(q, l') \<in> set (lookups ?s')" for q l'
  proof -
    from that have mem: "(q, l') \<in> set (lookups s)" and ne: "q \<noteq> p"
      by (auto simp: st)
    from reg [OF mem] reg [OF pl] ne have "l_key l' \<noteq> l_key l" by auto
    with reg [OF mem] show ?thesis by (auto simp: st)
  qed
  have 3: "\<exists>l'. (q, l') \<in> set (lookups ?s') \<and> l_key l' = k"
    if "pendingRequests ?s' k = Some q" for k q
  proof -
    from that have k: "k \<noteq> l_key l" and "pendingRequests s k = Some q"
      by (auto simp: st split: if_splits)
    from own [OF this(2)] obtain l' where mem: "(q, l') \<in> set (lookups s)" and lk: "l_key l' = k"
      by blast
    have "q \<noteq> p"
    proof
      assume "q = p"
      with mem d l have "l' = l" by simp
      with lk k show False by simp
    qed
    with mem lk show ?thesis by (auto simp: st)
  qed
  from 1 2 3 show ?thesis
    unfolding pending_inv_def by blast
qed

lemma pending_inv_step: "pending_inv s \<Longrightarrow> pending_inv (step e s)"
  by (cases e)
    (simp_all add: pending_inv_setApiKey pending_inv_searchMovie pending_inv_timer_fires
      pending_inv_respond)

lemma pending_inv_run: "pending_inv s \<Longrightarrow> pending_inv (run evs s)"
  unfolding run_def by (induction evs arbitrary: s) (simp_all add: pending_inv_step)

lemma run_append: "run (evs @ evs') s = run evs' (run evs s)"
  by (simp add: run_def)

lemma pending_inv_reachable: "pending_inv (run evs (init_state c))"
  by (rule pending_inv_run) (rule pending_inv_init)

lemma distinct_keys:
  assumes "pending_inv s"
  shows "distinct (map (\<lambda>(p, l). l_key l) (lookups s))"
proof -
  from assms have d: "distinct (map fst (lookups s))"
    and reg: "\<And>p l. (p, l) \<in> set (lookups s) \<Longrightarrow> pendingRequests s (l_key l) = Some p"
    by (auto simp: pending_inv_def)
  have "inj_on (\<lambda>(p, l). l_key l) (set (lookups s))"
  proof (rule inj_onI)
    fix a b assume a: "a \<in> set (lookups s)" and b: "b \<in> set (lookups s)"
      and e: "(\<lambda>(p, l). l_key l) a = (\<lambda>(p, l). l_key l) b"
    obtain p l where a': "a = (p, l)" by (cases a)
    obtain q l' where b': "b = (q, l')" by (cases b)
    from e a' b' have "l_key l = l_key l'" by simp
    with reg [of p l] reg [of q l'] a b a' b' have "p = q" by simp
    with d a b a' b' have "l = l'" by (meson eq_key_imp_eq_value)
    with \<open>p = q\<close> a' b' show "a = b" by simp
  qed
  moreover from d have "distinct (lookups s)" by (simp add: distinct_map)
  ultimately show ?thesis by (simp add: distinct_map)
qed

lemma at_most_one:
  "distinct (map f xs) \<Longrightarrow> length (filter (\<lambda>x. f x = k) xs) \<le> 1"
proof (induction xs)
  case Nil
  then show ?case by simp
next
  case (Cons x xs)
  show ?case
  proof (cases "f x = k")
    case True
    with Cons.prems have "k \<notin> f ` set xs" by simp
    then have "\<forall>z \<in> set xs. f z \<noteq> k" by blast
    then have "filter (\<lambda>x. f x = k) xs = []" by (simp add: filter_empty_conv)
    with True show ?thesis by simp
  next
    case False
    with Cons show ?thesis by simp
  qed
qed

text \<open>
  C2: in every state the service can reach, each key has at most one lookup in flight,
  and the pending map holds a promise under a key exactly when the lookup of that
  promise is in flight with that key. A call of \<open>searchMovie\<close> for a key with a pending
  entry leaves the state as it is, so it starts no lookup and issues no request, and,
  the service being enabled and the cache having no valid entry, it returns the pending
  promise. When the request of a lookup ends, with any outcome, the pending entry of its
  key is removed, the lookup is no longer in flight and its promise is resolved.
\<close>

theorem pending_lookup_shared:
  assumes "s = run evs (init_state c)"
  shows "length (filter (\<lambda>(p, l). l_key l = k) (lookups s)) \<le> 1
       \<and> (pendingRequests s k = Some p) = (\<exists>l. (p, l) \<in> set (lookups s) \<and> l_key l = k)
       \<and> (pendingRequests s (getCacheKey t y) = Some p \<longrightarrow>
            snd (searchMovie t y now s) = s
            \<and> (enabled s \<and> \<not> fst (getFromCache (tmdbCache s) t y now) \<longrightarrow>
                 fst (searchMovie t y now s) = Pending p))
       \<and> (map_of (lookups s) q = Some l \<and> l_stage l = Fetching \<longrightarrow>
            pendingRequests (respond q out now' s) (l_key l) = None
            \<and> q \<notin> fst ` set (lookups (respond q out now' s))
            \<and> (q, fetch_result (cleanTitle (l_title l)) out) \<in> set (resolved (respond q out now' s)))"
proof -
  from assms have inv: "pending_inv s" by (simp add: pending_inv_reachable)
  have "length (filter (\<lambda>x. (\<lambda>(p, l). l_key l) x = k) (lookups s)) \<le> 1"
    using distinct_keys [OF inv] by (rule at_most_one)
  then have 1: "length (filter (\<lambda>(p, l). l_key l = k) (lookups s)) \<le> 1"
    by (simp add: case_prod_unfold)
  have 2: "(pendingRequests s k = Some p) = (\<exists>l. (p, l) \<in> set (lookups s) \<and> l_key l = k)"
    using inv unfolding pending_inv_def by blast
  have 3: "snd (searchMovie t y now s) = s
            \<and> (enabled s \<and> \<not> fst (getFromCache (tmdbCache s) t y now) \<longrightarrow>
                 fst (searchMovie t y now s) = Pending p)"
    if "pendingRequests s (getCacheKey t y) = Some p"
    using that by (simp add: searchMovie_def Let_def)
  have 4: "pendingRequests (respond q out now' s) (l_key l) = None
            \<and> q \<notin> fst ` set (lookups (respond q out now' s))
            \<and> (q, fetch_result (cleanTitle (l_title l)) out) \<in> set (resolved (respond q out now' s))"
    if "map_of (lookups s) q = Some l" and "l_stage l = Fetching"
    using respond_settles [OF that] by auto
  from 1 2 3 4 show ?thesis by blast
qed

theorem pending_lookup_shared_witness:
  "pendingRequests (run [SetApiKey (Some ''key''), Search ''Alien'' None 1000] (init_state Map.empty))
      ''alien-unknown'' = Some 0
   \<and> length (filter (\<lambda>(p, l). l_key l = ''alien-unknown'')
        (lookups (run [SetApiKey (Some ''key''), Search ''Alien'' None 1000] (init_state Map.empty)))) = 1
   \<and> searchMovie ''ALIEN '' None 1001
        (run [SetApiKey (Some ''key''), Search ''Alien'' None 1000] (init_state Map.empty))
      = (Pending 0, run [SetApiKey (Some ''key''), Search ''Alien'' None 1000] (init_state Map.empty))
   \<and> pendingRequests
        (respond 0 Rejected 1200
          (run [SetApiKey (Some ''key''), Search ''Alien'' None 1000] (init_state Map.empty)))
        ''alien-unknown'' = None
   \<and> lookups
        (respond 0 Rejected 1200
          (run [SetApiKey (Some ''key''), Search ''Alien'' None 1000] (init_state Map.empty))) = []
   \<and> resolved
        (respond 0 Rejected 1200
          (run [SetApiKey (Some ''key''), Search ''Alien'' None 1000] (init_state Map.empty)))
      = [(0, None)]"
proof -
  let ?s = "run [SetApiKey (Some ''key''), Search ''Alien'' None 1000] (init_state Map.empty)"
  let ?l = "\<lparr>l_title = ''Alien'', l_year = None, l_key = ''alien-unknown'', l_stage = Fetching\<rparr>"
  note inst = pending_lookup_shared [OF refl, where evs = "[SetApiKey (Some ''key''), Search ''Alien'' None 1000]"
      and c = Map.empty and k = "''alien-unknown''" and p = 0 and t = "''ALIEN ''" and y = None
      and now = 1001 and q = 0 and l = ?l and out = Rejected and now' = 1200]
  have k: "getCacheKey ''ALIEN '' None = ''alien-unknown''"
    by (simp add: string_defs)
  have lk: "lookups ?s = [(0, ?l)]"
    by (simp add: service_defs string_defs)
  have pend: "pendingRequests ?s ''alien-unknown'' = Some 0"
    using inst lk by simp
  have en: "enabled ?s"
    by (simp add: service_defs string_defs)
  have miss: "\<not> fst (getFromCache (tmdbCache ?s) ''ALIEN '' None 1001)"
    by (simp add: service_defs string_defs)
  have one: "length (filter (\<lambda>(p, l). l_key l = ''alien-unknown'') (lookups ?s)) = 1"
    by (simp add: lk)
  have shared: "searchMovie ''ALIEN '' None 1001 ?s = (Pending 0, ?s)"
    using inst pend en miss unfolding k by (simp add: prod_eq_iff)
  have gone: "pendingRequests (respond 0 Rejected 1200 ?s) ''alien-unknown'' = None"
    using inst lk by simp
  have none: "lookups (respond 0 Rejected 1200 ?s) = []"
    using respond_settles(1) [of ?s 0 ?l Rejected 1200] by (simp add: lk)
  have res: "resolved (respond 0 Rejected 1200 ?s) = [(0, None)]"
    using respond_settles(6) [of ?s 0 ?l Rejected 1200]
    by (simp add: lk) (simp add: service_defs string_defs)
  from pend one shared gone none res show ?thesis by blast
qed

section \<open>Repeated lookups\<close>

text \<open>
  A key is settled in a state when it has a cache entry and no pending promise. No step
  changes the entry of a settled key, as long as every call of \<open>searchMovie\<close> is made
  while the entry is valid.
\<close>

lemma settled_step:
  assumes inv: "pending_inv s" and e: "tmdbCache s k = Some e"
    and free: "pendingRequests s k = None" and ok: "within_ttl (timestamp e) ev"
  shows "tmdbCache (step ev s) k = Some e \<and> pendingRequests (step ev s) k = None"
proof (cases ev)
  case (SetApiKey x)
  with e free show ?thesis by (simp add: setApiKey_def)
next
  case (Search t y now)
  show ?thesis
  proof (cases "\<not> enabled s \<or> fst (getFromCache (tmdbCache s) t y now)
     \<or> pendingRequests s (getCacheKey t y) \<noteq> None")
    case True
    with e free Search show ?thesis by (simp add: searchMovie_old)
  next
    case False
    then have en: "enabled s" and miss: "\<not> fst (getFromCache (tmdbCache s) t y now)"
      and fr: "pendingRequests s (getCacheKey t y) = None"
      by auto
    have "getCacheKey t y \<noteq> k"
    proof
      assume "getCacheKey t y = k"
      with e ok Search have "fst (getFromCache (tmdbCache s) t y now)"
        by (simp add: getFromCache_def)
      with miss show False by simp
    qed
    with e free Search searchMovie_new [OF en miss fr] show ?thesis by simp
  qed
next
  case (TimerFires p now)
  with e free show ?thesis by (simp add: timer_fires_fields)
next
  case (Respond p out now)
  show ?thesis
  proof (cases "\<exists>l. map_of (lookups s) p = Some l \<and> l_stage l = Fetching")
    case False
    with e free Respond show ?thesis by (simp add: respond_idle)
  next
    case True
    then obtain l where l: "map_of (lookups s) p = Some l" and f: "l_stage l = Fetching"
      by blast
    from l have "(p, l) \<in> set (lookups s)" by (rule map_of_SomeD)
    with inv have "pendingRequests s (l_key l) = Some p"
      and key: "l_key l = getCacheKey (l_title l) (l_year l)"
      by (auto simp: pending_inv_def)
    with free have "l_key l \<noteq> k" by auto
    with key e free Respond respond_settles [OF l f] show ?thesis
      by (simp add: setCache_def)
  qed
qed

lemma settled_run:
  assumes "pending_inv s" and "tmdbCache s k = Some e"
    and "pendingRequests s k = None" and "list_all (within_ttl (timestamp e)) evs"
  shows "tmdbCache (run evs s) k = Some e \<and> pendingRequests (run evs s) k = None"
  using assms
proof (induction evs arbitrary: s)
  case Nil
  then show ?case by (simp add: run_def)
next
  case (Cons ev evs)
  from Cons.prems have ok: "within_ttl (timestamp e) ev"
    and rest: "list_all (within_ttl (timestamp e)) evs" by simp_all
  from settled_step [OF Cons.prems(1-3) ok]
  have "tmdbCache (step ev s) k = Some e" and "pendingRequests (step ev s) k = None"
    by simp_all
  from Cons.IH [OF pending_inv_step [OF Cons.prems(1)] this rest]
  show ?case by (simp add: run_def)
qed

text \<open>The request of a lookup ends: its key is settled with the value of the lookup.\<close>

lemma respond_settled:
  assumes inv: "pending_inv s" and l: "map_of (lookups s) p = Some l"
    and f: "l_stage l = Fetching"
  shows "tmdbCache (respond p out now s) (getCacheKey (l_title l) (l_year l)) =
           Some \<lparr>data = fetch_result (cleanTitle (l_title l)) out, timestamp = now\<rparr>"
    and "pendingRequests (respond p out now s) (getCacheKey (l_title l) (l_year l)) = None"
proof -
  from l have "(p, l) \<in> set (lookups s)" by (rule map_of_SomeD)
  with inv have key: "l_key l = getCacheKey (l_title l) (l_year l)"
    by (auto simp: pending_inv_def)
  show "tmdbCache (respond p out now s) (getCacheKey (l_title l) (l_year l)) =
           Some \<lparr>data = fetch_result (cleanTitle (l_title l)) out, timestamp = now\<rparr>"
    by (rule respond_cache [OF l f])
  show "pendingRequests (respond p out now s) (getCacheKey (l_title l) (l_year l)) = None"
    using respond_settles(2) [OF l f] key by simp
qed

text \<open>
  C3: a lookup is in flight in a reachable state, for the title and year of the first
  call, and its request ends at time \<open>t2\<close> with any outcome; its promise, which every
  caller of that lookup holds, is resolved with a value \<open>r\<close>. Then any events follow, the
  calls of \<open>searchMovie\<close> among them made less than \<open>CACHE_DURATION\<close> after \<open>t2\<close>. A
  call for a title and year with the same key, made in the state then reached, less than
  \<open>CACHE_DURATION\<close> after \<open>t2\<close>, with the service enabled, returns \<open>r\<close> at once and
  leaves the state as it is: no lookup is started and no request is issued.
\<close>

theorem second_lookup_from_cache:
  assumes "s = run evs0 (init_state c)"
    and "map_of (lookups s) p = Some l" and "l_stage l = Fetching"
    and "s2 = respond p out t2 s"
    and "list_all (within_ttl t2) evs" and "s3 = run evs s2"
    and "enabled s3" and "t3 - t2 < CACHE_DURATION"
    and "getCacheKey t y = getCacheKey (l_title l) (l_year l)"
    and "r = fetch_result (cleanTitle (l_title l)) out"
  shows "(p, r) \<in> set (resolved s2)
       \<and> searchMovie t y t3 s3 = (Resolved r, s3)
       \<and> issued (snd (searchMovie t y t3 s3)) = issued s3
       \<and> lookups (snd (searchMovie t y t3 s3)) = lookups s3"
proof -
  let ?k = "getCacheKey (l_title l) (l_year l)"
  let ?e = "\<lparr>data = r, timestamp = t2\<rparr>"
  from assms(1) have inv: "pending_inv s" by (simp add: pending_inv_reachable)
  then have inv2: "pending_inv s2" using assms(4) by (simp add: pending_inv_respond)
  from respond_settled [OF inv assms(2,3)] assms(4,10)
  have e2: "tmdbCache s2 ?k = Some ?e" and free2: "pendingRequests s2 ?k = None"
    by simp_all
  from assms(5) have "list_all (within_ttl (timestamp ?e)) evs" by simp
  from settled_run [OF inv2 e2 free2 this] assms(6)
  have "tmdbCache s3 ?k = Some ?e" by simp
  with assms(8,9) have "getFromCache (tmdbCache s3) t y t3 = (True, r)"
    by (simp add: getFromCache_def)
  from searchMovie_cached [OF assms(7) this]
  have hit: "searchMovie t y t3 s3 = (Resolved r, s3)" .
  have "(p, r) \<in> set (resolved s2)"
    using respond_settles(6) [OF assms(2,3)] assms(4,10) by simp
  with hit show ?thesis by simp
qed

theorem second_lookup_from_cache_witness:
  "map_of (lookups (run [SetApiKey (Some ''key''), Search ''Alien'' None 1000] (init_state Map.empty))) 0
     = Some \<lparr>l_title = ''Alien'', l_year = None, l_key = ''alien-unknown'', l_stage = Fetching\<rparr>
   \<and> list_all (within_ttl 1200) [Search ''Zorro'' None 1300]
   \<and> enabled (run [SetApiKey (Some ''key''), Search ''Alien'' None 1000,
         Respond 0 (Response 200 (Data (Some [candidate 348 ''Alien'' (Some ''/a.jpg'')]))) 1200,
         Search ''Zorro'' None 1300] (init_state Map.empty))
   \<and> (5000::int) - 1200 < CACHE_DURATION
   \<and> getCacheKey '' alien'' None = getCacheKey ''Alien'' None
   \<and> fetch_result (cleanTitle ''Alien'')
        (Response 200 (Data (Some [candidate 348 ''Alien'' (Some ''/a.jpg'')])))
      = Some (to_match (candidate 348 ''Alien'' (Some ''/a.jpg'')))
   \<and> searchMovie '' alien'' None 5000
        (run [SetApiKey (Some ''key''), Search ''Alien'' None 1000,
          Respond 0 (Response 200 (Data (Some [candidate 348 ''Alien'' (Some ''/a.jpg'')]))) 1200,
          Search ''Zorro'' None 1300] (init_state Map.empty))
      = (Resolved (Some (to_match (candidate 348 ''Alien'' (Some ''/a.jpg'')))),
         run [SetApiKey (Some ''key''), Search ''Alien'' None 1000,
          Respond 0 (Response 200 (Data (Some [candidate 348 ''Alien'' (Some ''/a.jpg'')]))) 1200,
          Search ''Zorro'' None 1300] (init_state Map.empty))"
proof -
  let ?out = "Response 200 (Data (Some [candidate 348 ''Alien'' (Some ''/a.jpg'')]))"
  let ?s = "run [SetApiKey (Some ''key''), Search ''Alien'' None 1000] (init_state Map.empty)"
  let ?s3 = "run [SetApiKey (Some ''key''), Search ''Alien'' None 1000, Respond 0 ?out 1200,
      Search ''Zorro'' None 1300] (init_state Map.empty)"
  let ?l = "\<lparr>l_title = ''Alien'', l_year = None, l_key = ''alien-unknown'', l_stage = Fetching\<rparr>"
  let ?r = "Some (to_match (candidate 348 ''Alien'' (Some ''/a.jpg'')))"
  have l: "map_of (lookups ?s) 0 = Some ?l"
    by (simp add: service_defs string_defs)
  have f: "l_stage ?l = Fetching" by simp
  have evs: "list_all (within_ttl 1200) [Search ''Zorro'' None 1300]"
    by (simp add: CACHE_DURATION_def)
  have s3: "?s3 = run [Search ''Zorro'' None 1300] (respond 0 ?out 1200 ?s)"
    by (simp add: run_def)
  have en: "enabled ?s3"
    by (simp add: service_defs string_defs)
  have t: "(5000::int) - 1200 < CACHE_DURATION"
    by (simp add: CACHE_DURATION_def)
  have k: "getCacheKey '' alien'' None = getCacheKey (l_title ?l) (l_year ?l)"
    by (simp add: string_defs)
  have r: "?r = fetch_result (cleanTitle (l_title ?l)) ?out"
    by (simp add: fetch_result_def ok_def bestMatch_def title_matches_def candidate_def
        toLowerCase_def toLowerChar_def clean_defs)
  from second_lookup_from_cache [OF refl l f refl evs s3 en t k r]
  have "searchMovie '' alien'' None 5000 ?s3 = (Resolved ?r, ?s3)" by simp
  with l evs en t k r show ?thesis by simp
qed

section \<open>Errors are cached\<close>

lemma fetch_result_error: "is_error out \<Longrightarrow> fetch_result q out = None"
  by (cases out) (simp_all add: is_error_def fetch_result_def)

text \<open>
  C1, amended: when the request of a lookup ends in a transport or server error, \<open>null\<close>
  is written to the cache under the key of the lookup, stamped with the time of the
  error, as it is for a successful response without a match, and the promise is resolved
  with \<open>null\<close>. A lookup for the same title and year made less than \<open>CACHE_DURATION\<close>
  later is answered \<open>null\<close> from the cache, in an unchanged state, without a request. Only
  a lookup made \<open>CACHE_DURATION\<close> later or more starts a new lookup.
\<close>

theorem error_outcome_cached:
  assumes "s = run evs (init_state c)"
    and "map_of (lookups s) p = Some l" and "l_stage l = Fetching"
    and "is_error out" and "s2 = respond p out t2 s" and "enabled s2"
  shows "tmdbCache s2 (getCacheKey (l_title l) (l_year l)) = Some \<lparr>data = None, timestamp = t2\<rparr>
       \<and> (p, None) \<in> set (resolved s2)
       \<and> (t3 - t2 < CACHE_DURATION \<longrightarrow>
            searchMovie (l_title l) (l_year l) t3 s2 = (Resolved None, s2))
       \<and> (CACHE_DURATION \<le> t3 - t2 \<longrightarrow>
            fst (searchMovie (l_title l) (l_year l) t3 s2) = Pending (nextId s2)
            \<and> lookups (snd (searchMovie (l_title l) (l_year l) t3 s2)) =
                lookups s2 @ [(nextId s2, \<lparr>l_title = l_title l, l_year = l_year l,
                                 l_key = getCacheKey (l_title l) (l_year l),
                                 l_stage = fst (throttledFetch t3 s2)\<rparr>)])"
proof -
  let ?k = "getCacheKey (l_title l) (l_year l)"
  from assms(1) have inv: "pending_inv s" by (simp add: pending_inv_reachable)
  from assms(4) have none: "fetch_result (cleanTitle (l_title l)) out = None"
    by (rule fetch_result_error)
  from respond_settled [OF inv assms(2,3)] assms(5) none
  have e2: "tmdbCache s2 ?k = Some \<lparr>data = None, timestamp = t2\<rparr>"
    and free2: "pendingRequests s2 ?k = None"
    by simp_all
  have res: "(p, None) \<in> set (resolved s2)"
    using respond_settles(6) [OF assms(2,3)] assms(5) none by simp
  have hit: "searchMovie (l_title l) (l_year l) t3 s2 = (Resolved None, s2)"
    if "t3 - t2 < CACHE_DURATION"
  proof -
    from e2 that have "getFromCache (tmdbCache s2) (l_title l) (l_year l) t3 = (True, None)"
      by (simp add: getFromCache_def)
    from searchMovie_cached [OF assms(6) this] show ?thesis .
  qed
  have retry: "fst (searchMovie (l_title l) (l_year l) t3 s2) = Pending (nextId s2)
            \<and> lookups (snd (searchMovie (l_title l) (l_year l) t3 s2)) =
                lookups s2 @ [(nextId s2, \<lparr>l_title = l_title l, l_year = l_year l,
                                 l_key = getCacheKey (l_title l) (l_year l),
                                 l_stage = fst (throttledFetch t3 s2)\<rparr>)]"
    if "CACHE_DURATION \<le> t3 - t2"
  proof -
    from e2 that have miss: "\<not> fst (getFromCache (tmdbCache s2) (l_title l) (l_year l) t3)"
      by (simp add: getFromCache_def)
    from searchMovie_new(1,2) [OF assms(6) miss free2] show ?thesis by simp
  qed
  from e2 res hit retry show ?thesis by blast
qed

theorem error_outcome_cached_witness:
  "map_of (lookups (run [SetApiKey (Some ''key''), Search ''Alien'' None 1000] (init_state Map.empty))) 0
     = Some \<lparr>l_title = ''Alien'', l_year = None, l_key = ''alien-unknown'', l_stage = Fetching\<rparr>
   \<and> is_error (Response 500 Invalid)
   \<and> enabled (respond 0 (Response 500 Invalid) 1200
        (run [SetApiKey (Some ''key''), Search ''Alien'' None 1000] (init_state Map.empty)))
   \<and> tmdbCache (respond 0 (Response 500 Invalid) 1200
        (run [SetApiKey (Some ''key''), Search ''Alien'' None 1000] (init_state Map.empty)))
        ''alien-unknown'' = Some \<lparr>data = None, timestamp = 1200\<rparr>
   \<and> searchMovie ''Alien'' None 2000
        (respond 0 (Response 500 Invalid) 1200
          (run [SetApiKey (Some ''key''), Search ''Alien'' None 1000] (init_state Map.empty)))
      = (Resolved None,
         respond 0 (Response 500 Invalid) 1200
          (run [SetApiKey (Some ''key''), Search ''Alien'' None 1000] (init_state Map.empty)))
   \<and> fst (searchMovie ''Alien'' None (1200 + CACHE_DURATION)
        (respond 0 (Response 500 Invalid) 1200
          (run [SetApiKey (Some ''key''), Search ''Alien'' None 1000] (init_state Map.empty))))
      = Pending 1"
proof -
  let ?s = "run [SetApiKey (Some ''key''), Search ''Alien'' None 1000] (init_state Map.empty)"
  let ?s2 = "respond 0 (Response 500 Invalid) 1200 ?s"
  let ?l = "\<lparr>l_title = ''Alien'', l_year = None, l_key = ''alien-unknown'', l_stage = Fetching\<rparr>"
  have l: "map_of (lookups ?s) 0 = Some ?l"
    by (simp add: service_defs string_defs)
  have f: "l_stage ?l = Fetching" by simp
  have err: "is_error (Response 500 Invalid)"
    by (simp add: is_error_def ok_def)
  have en: "enabled ?s2"
    by (simp add: service_defs string_defs)
  have k: "getCacheKey ''Alien'' None = ''alien-unknown''"
    by (simp add: string_defs)
  have n: "nextId ?s2 = 1"
    by (simp add: service_defs string_defs)
  note inst = error_outcome_cached [OF refl l f err refl en]
  from inst [of 2000] have a: "tmdbCache ?s2 ''alien-unknown'' = Some \<lparr>data = None, timestamp = 1200\<rparr>"
    and b: "searchMovie ''Alien'' None 2000 ?s2 = (Resolved None, ?s2)"
    by (simp_all add: k CACHE_DURATION_def)
  from inst [of "1200 + CACHE_DURATION"]
  have c: "fst (searchMovie ''Alien'' None (1200 + CACHE_DURATION) ?s2) = Pending 1"
    by (simp add: n)
  from l err en a b c show ?thesis by blast
qed

section \<open>The title normalizer\<close>






lemma trimEnd_Nil [simp]: "trimEnd [] = []"
  by (simp add: trimEnd_def)


lemma trimEnd_snoc: "\<not> is_space c \<Longrightarrow> trimEnd (x @ [c]) = x @ [c]"
  by (simp add: trimEnd_def)






lemma normalize_spaces_eq_Nil [simp]: "(normalize_spaces u = []) = (u = [])"
  by (cases u) simp_all









lemma strip_year_suffix_other:
  assumes "dropWhile is_space (rev x) = c # rest" and "c \<noteq> r"
  shows "strip_year_suffix l r x = x"
  using assms by (simp add: strip_year_suffix_def split: list.splits)

lemma strip_year_suffix_absent:
  assumes "r \<notin> set x"
  shows "strip_year_suffix l r x = x"
proof (cases "dropWhile is_space (rev x)")
  case Nil
  then show ?thesis by (simp add: strip_year_suffix_def del: dropWhile_eq_Nil_conv)
next
  case (Cons c rest)
  then have "c \<in> set (dropWhile is_space (rev x))" by simp
  then have "c \<in> set x" using set_dropWhileD by fastforce
  with assms have "c \<noteq> r" by auto
  with Cons show ?thesis by (rule strip_year_suffix_other)
qed


lemma strip_dash_year_absent:
  assumes "CHR ''-'' \<notin> set x"
  shows "strip_dash_year x = x"
proof -
  have "m \<noteq> CHR ''-''" if "dropWhile is_space (rev x) = d4 # d3 # d2 # d1 # rest"
    and "dropWhile is_space rest = m # rest'" for d4 d3 d2 d1 rest m rest'
  proof -
    from that(2) have "m \<in> set (dropWhile is_space rest)" by simp
    then have "m \<in> set rest" by (rule set_dropWhileD)
    with that(1) have "m \<in> set (dropWhile is_space (rev x))" by simp
    then have "m \<in> set (rev x)" by (rule set_dropWhileD)
    with assms show ?thesis by auto
  qed
  then show ?thesis
    by (simp add: strip_dash_year_def split: list.splits)
qed





















end
